theory Spec2Isabelle
  imports Main "HOL-Library.Word" "HOL-Library.Product_Lexorder" "HOL-Library.Sublist"
    "HOL-Library.Multiset"
begin

section \<open>Data model\<close>

text \<open>
  A Python \<open>bytes\<close> value is a list of 8-bit words. Python integers (counts, lengths,
  tree symbols, vocabulary ids) are unbounded and never negative here: \<open>nat\<close>.
  A Huffman code is a list of the integers 0 and 1: \<open>False\<close> is 0, \<open>True\<close> is 1.
\<close>

type_synonym byte = "8 word"
type_synonym bytes = "byte list"
type_synonym bits = "bool list"

text \<open>
  The exceptions the code can raise. The \<open>ValueError\<close>s raised by the code itself are
  told apart by their message; the others are raised by the Python run time.
\<close>

datatype error =
    DataTooShort      \<comment> \<open>ValueError "Dati troppo corti ..."\<close>
  | InvalidMagic      \<comment> \<open>ValueError "Magic (number) non valido"\<close>
  | WrongVersion      \<comment> \<open>ValueError "Versione vN richiesta ..."\<close>
  | VocabTooLarge     \<comment> \<open>ValueError "VOCAB troppo grande ..."\<close>
  | TokenTooLong      \<comment> \<open>ValueError "Token troppo lungo per LEN(2 byte)"\<close>
  | TruncatedFile     \<comment> \<open>ValueError "File troncato ..."\<close>
  | OverflowError     \<comment> \<open>\<open>int.to_bytes\<close>: int too big to convert\<close>
  | KeyError          \<comment> \<open>dictionary lookup of a missing key\<close>
  | IndexError        \<comment> \<open>index out of range\<close>
  | AttributeError    \<comment> \<open>attribute access on \<open>None\<close>\<close>
  | NegativeShift     \<comment> \<open>ValueError "negative shift count"\<close>
  | ByteRangeError    \<comment> \<open>ValueError "byte must be in range(0, 256)"\<close>

definition bytes_of :: "string \<Rightarrow> bytes" where
  "bytes_of s = map of_char s"

definition and_then :: "error + 'a \<Rightarrow> ('a \<Rightarrow> error + 'b) \<Rightarrow> error + 'b" where
  "and_then r f = (case r of Inl e \<Rightarrow> Inl e | Inr x \<Rightarrow> f x)"

text \<open>\<open>MAGIC = b"GCC"\<close>\<close>

definition MAGIC :: bytes where
  "MAGIC = bytes_of ''GCC''"

section \<open>Huffman trees\<close>

text \<open>
  \<open>HuffmanNode\<close> is a dataclass with a weight and three optional fields. The code
  builds two shapes only: a leaf \<open>HuffmanNode(freq=f, symbol=sym)\<close> with no children,
  and an inner node \<open>HuffmanNode(freq=.., symbol=None, left=n1, right=n2)\<close>.
\<close>

datatype HuffmanNode =
    Leaf nat nat
  | Inner nat HuffmanNode HuffmanNode

text \<open>
  \<open>build_freq_table\<close>: 256 counters, \<open>freq[b] += 1\<close> for every byte.
\<close>

definition build_freq_table :: "bytes \<Rightarrow> nat list" where
  "build_freq_table data =
     foldl (\<lambda>freq b. freq[unat b := freq ! unat b + 1]) (replicate 256 0) data"

text \<open>
  The heap holds tuples \<open>(weight, counter, node)\<close>. The counter is different in every
  tuple, so two tuples are always ordered by \<open>(weight, counter)\<close> and the nodes are never
  compared. \<open>heapq\<close> keeps the smallest tuple at \<open>heap[0]\<close> and \<open>heappop\<close> removes
  it: the heap is modelled as the list of its tuples in increasing order, whose head is
  \<open>heap[0]\<close>.
\<close>

type_synonym heap_entry = "nat \<times> nat \<times> HuffmanNode"

definition entry_key :: "heap_entry \<Rightarrow> nat \<times> nat" where
  "entry_key e = (fst e, fst (snd e))"

definition heappush :: "heap_entry list \<Rightarrow> heap_entry \<Rightarrow> heap_entry list" where
  "heappush heap e = insort_key entry_key e heap"

text \<open>
  The first loop of \<open>build_huffman_tree\<close>: \<open>for sym, f in enumerate(freq)\<close>, from
  symbol \<open>symb\<close> (\<open>sym\<close> in the source) on, with the heap and the next value of the counter.
\<close>

fun push_leaves :: "nat list \<Rightarrow> nat \<Rightarrow> heap_entry list \<times> nat \<Rightarrow> heap_entry list \<times> nat" where
  "push_leaves [] symb (heap, counter) = (heap, counter)"
| "push_leaves (f # freq) symb (heap, counter) =
     (if f > 0 then push_leaves freq (Suc symb) (heappush heap (f, counter, Leaf f symb), Suc counter)
      else push_leaves freq (Suc symb) (heap, counter))"

text \<open>
  The special case of a single symbol: a dummy leaf of weight 0 is pushed. The only
  entry of the heap is then one of the leaves pushed by the first loop.
\<close>

definition add_dummy :: "heap_entry list \<times> nat \<Rightarrow> heap_entry list \<times> nat" where
  "add_dummy hc =
     (case hc of
        ([(f, c, Leaf w only_symbol)], counter) \<Rightarrow>
          (heappush [(f, c, Leaf w only_symbol)]
             (0, counter, Leaf 0 ((only_symbol + 1) mod 256)), Suc counter)
      | _ \<Rightarrow> hc)"

text \<open>\<open>while len(heap) > 1\<close>: pop two, push their parent.\<close>

function merge_loop :: "heap_entry list \<Rightarrow> nat \<Rightarrow> heap_entry list" where
  "merge_loop [] counter = []"
| "merge_loop [e] counter = [e]"
| "merge_loop ((f1, c1, n1) # (f2, c2, n2) # heap) counter =
     merge_loop (heappush heap (f1 + f2, counter, Inner (f1 + f2) n1 n2)) (Suc counter)"
  by pat_completeness auto
termination
  by (relation "measure (\<lambda>(heap, counter). length heap)") (auto simp: heappush_def)

definition build_huffman_tree :: "nat list \<Rightarrow> HuffmanNode option" where
  "build_huffman_tree freq =
     (case push_leaves freq 0 ([], 0) of
        ([], counter) \<Rightarrow> None
      | (e # heap, counter) \<Rightarrow>
          (case add_dummy (e # heap, counter) of
             (heap', counter') \<Rightarrow>
               (case merge_loop heap' counter' of
                  [] \<Rightarrow> None
                | (f, c, root) # rest \<Rightarrow> Some root)))"

text \<open>
  \<open>build_code_table\<close>: \<open>dfs\<close> fills the dictionary \<open>codes\<close>; a leaf reached with the
  empty path gets the code \<open>[0]\<close>.
\<close>

fun dfs :: "HuffmanNode \<Rightarrow> bits \<Rightarrow> (nat \<rightharpoonup> bits) \<Rightarrow> (nat \<rightharpoonup> bits)" where
  "dfs (Leaf f symb) path codes = codes(symb \<mapsto> (if path \<noteq> [] then path else [False]))"
| "dfs (Inner f l r) path codes = dfs r (path @ [True]) (dfs l (path @ [False]) codes)"

definition build_code_table :: "HuffmanNode \<Rightarrow> (nat \<rightharpoonup> bits)" where
  "build_code_table root = dfs root [] Map.empty"

section \<open>Bit packing\<close>

text \<open>
  The state of \<open>encode_data\<close> is \<open>(out_bytes, current_byte, bit_count)\<close>.
  \<open>(current_byte << 1) | bit\<close> is \<open>2 * current_byte + bit\<close>, the low bit of the shifted
  value being 0. \<open>current_byte\<close> holds \<open>bit_count\<close> bits, fewer than 256 when it is
  appended (lemma \<open>encode_bits_bound\<close>).
\<close>

type_synonym encode_state = "bytes \<times> nat \<times> nat"

fun encode_bits :: "bits \<Rightarrow> encode_state \<Rightarrow> encode_state" where
  "encode_bits [] st = st"
| "encode_bits (b # code) (out_bytes, current_byte, bit_count) =
     (let current_byte' = 2 * current_byte + (if b then 1 else 0);
          bit_count' = bit_count + 1
      in if bit_count' = 8 then encode_bits code (out_bytes @ [of_nat current_byte'], 0, 0)
         else encode_bits code (out_bytes, current_byte', bit_count'))"

fun encode_loop :: "bytes \<Rightarrow> (nat \<rightharpoonup> bits) \<Rightarrow> encode_state \<Rightarrow> error + encode_state" where
  "encode_loop [] codes st = Inr st"
| "encode_loop (b # data) codes st =
     (case codes (unat b) of
        None \<Rightarrow> Inl KeyError
      | Some code \<Rightarrow> encode_loop data codes (encode_bits code st))"

definition encode_data :: "bytes \<Rightarrow> (nat \<rightharpoonup> bits) \<Rightarrow> error + (bytes \<times> nat)" where
  "encode_data data codes =
     (if data = [] then Inr ([], 0)
      else and_then (encode_loop data codes ([], 0, 0))
        (\<lambda>(out_bytes, current_byte, bit_count).
           if bit_count > 0
           then Inr (out_bytes @ [of_nat (current_byte * 2 ^ (8 - bit_count))], bit_count)
           else Inr (out_bytes, 8)))"

text \<open>
  \<open>decode_bitstream\<close>. The inner loop runs over the bit indexes of one byte and either
  returns the output (\<open>Done\<close>) or leaves \<open>(node, out, total_symbols)\<close> to the next byte
  (\<open>More\<close>). \<open>byte >> (7 - bit_index)\<close> raises for a negative count; stepping down from a
  leaf gives \<open>None\<close>, whose \<open>symbol\<close> cannot be read; \<open>out.append\<close> raises for a symbol
  that is no byte.
\<close>

datatype decode_step = Done bytes | More HuffmanNode bytes nat

fun decode_byte ::
  "HuffmanNode \<Rightarrow> nat \<Rightarrow> byte \<Rightarrow> nat list \<Rightarrow> HuffmanNode \<Rightarrow> bytes \<Rightarrow> nat \<Rightarrow> error + decode_step" where
  "decode_byte root N byte [] node out total_symbols = Inr (More node out total_symbols)"
| "decode_byte root N byte (bit_index # indexes) node out total_symbols =
     (if bit_index > 7 then Inl NegativeShift
      else
        (case node of
           Leaf f symb \<Rightarrow> Inl AttributeError
         | Inner f l r \<Rightarrow>
             (case (if (unat byte div 2 ^ (7 - bit_index)) mod 2 = 0 then l else r) of
                Leaf f' symb \<Rightarrow>
                  (if symb \<ge> 256 then Inl ByteRangeError
                   else if total_symbols + 1 = N then Inr (Done (out @ [of_nat symb]))
                   else decode_byte root N byte indexes root (out @ [of_nat symb])
                          (total_symbols + 1))
              | Inner f' l' r' \<Rightarrow>
                  decode_byte root N byte indexes (Inner f' l' r') out total_symbols)))"

fun decode_loop ::
  "HuffmanNode \<Rightarrow> nat \<Rightarrow> nat \<Rightarrow> nat \<Rightarrow> nat \<Rightarrow> bytes \<Rightarrow> HuffmanNode \<Rightarrow> bytes \<Rightarrow> nat \<Rightarrow> error + bytes" where
  "decode_loop root N lastbits total_bytes i [] node out total_symbols = Inr out"
| "decode_loop root N lastbits total_bytes i (byte # bitstream) node out total_symbols =
     (let bits_in_this_byte = (if i = total_bytes - 1 \<and> lastbits \<noteq> 0 then lastbits else 8)
      in case decode_byte root N byte [0..<bits_in_this_byte] node out total_symbols of
           Inl e \<Rightarrow> Inl e
         | Inr (Done res) \<Rightarrow> Inr res
         | Inr (More node' out' total') \<Rightarrow>
             decode_loop root N lastbits total_bytes (i + 1) bitstream node' out' total')"

definition decode_bitstream :: "HuffmanNode option \<Rightarrow> bytes \<Rightarrow> nat \<Rightarrow> nat \<Rightarrow> error + bytes" where
  "decode_bitstream root bitstream N lastbits =
     (if N = 0 then Inr []
      else case root of
             None \<Rightarrow> Inr []
           | Some r \<Rightarrow> decode_loop r N lastbits (length bitstream) 0 bitstream r [] 0)"

section \<open>The Huffman core\<close>

definition huffman_compress_core :: "bytes \<Rightarrow> error + (nat list \<times> nat \<times> bytes)" where
  "huffman_compress_core data =
     (let freq = build_freq_table data
      in case build_huffman_tree freq of
           None \<Rightarrow> Inr (freq, 0, [])
         | Some root \<Rightarrow>
             and_then (encode_data data (build_code_table root))
               (\<lambda>(bitstream, lastbits). Inr (freq, lastbits, bitstream)))"

definition huffman_decompress_core :: "nat list \<Rightarrow> bytes \<Rightarrow> nat \<Rightarrow> nat \<Rightarrow> error + bytes" where
  "huffman_decompress_core freq bitstream N lastbits =
     (case build_huffman_tree freq of
        None \<Rightarrow> Inr []
      | Some root \<Rightarrow>
          if N = 0 then Inr [] else decode_bitstream (Some root) bitstream N lastbits)"

section \<open>Header fields\<close>

text \<open>
  \<open>n.to_bytes(k, "big")\<close> raises OverflowError when \<open>n\<close> does not fit in \<open>k\<close> bytes;
  \<open>int.from_bytes(bs, "big")\<close> accepts any length. \<open>comp[i:j]\<close> is cut at the end of
  the buffer; \<open>comp[i]\<close> raises IndexError beyond it.
\<close>

definition to_bytes :: "nat \<Rightarrow> nat \<Rightarrow> error + bytes" where
  "to_bytes k n =
     (if n \<ge> 256 ^ k then Inl OverflowError
      else Inr (map (\<lambda>i. of_nat (n div 256 ^ (k - 1 - i))) [0..<k]))"

definition from_bytes :: "bytes \<Rightarrow> nat" where
  "from_bytes bs = foldl (\<lambda>acc b. acc * 256 + unat b) 0 bs"

definition slice :: "bytes \<Rightarrow> nat \<Rightarrow> nat \<Rightarrow> bytes" where
  "slice cmp i j = take (j - i) (drop i cmp)"

definition index :: "bytes \<Rightarrow> nat \<Rightarrow> error + byte" where
  "index cmp i = (if i < length cmp then Inr (cmp ! i) else Inl IndexError)"

text \<open>\<open>for f in freq: header += f.to_bytes(4, "big")\<close>\<close>

fun freq_to_bytes :: "nat list \<Rightarrow> error + bytes" where
  "freq_to_bytes [] = Inr []"
| "freq_to_bytes (f # freq) =
     and_then (to_bytes 4 f) (\<lambda>fb. and_then (freq_to_bytes freq) (\<lambda>rest. Inr (fb @ rest)))"

text \<open>
  \<open>for _ in range(256): f = int.from_bytes(comp[idx:idx+4], "big"); idx += 4;
  freq.append(f)\<close>, for a number of rounds.
\<close>

fun read_freq :: "nat \<Rightarrow> bytes \<Rightarrow> nat \<Rightarrow> nat list" where
  "read_freq 0 cmp idx = []"
| "read_freq (Suc k) cmp idx = from_bytes (slice cmp idx (idx + 4)) # read_freq k cmp (idx + 4)"

section \<open>Step 1: one stream\<close>

definition compress_bytes_v1 :: "bytes \<Rightarrow> error + bytes" where
  "compress_bytes_v1 data =
     and_then (huffman_compress_core data) (\<lambda>(freq, lastbits, bitstream).
     and_then (to_bytes 8 (length data)) (\<lambda>n_bytes.
     and_then (freq_to_bytes freq) (\<lambda>freq_bytes.
       Inr (MAGIC @ [1] @ n_bytes @ freq_bytes @ [of_nat lastbits] @ bitstream))))"

definition decompress_bytes_v1 :: "bytes \<Rightarrow> error + bytes" where
  "decompress_bytes_v1 cmp =
     (if length cmp < 3 + 1 + 8 + 256 * 4 + 1 then Inl DataTooShort
      else if slice cmp 0 3 \<noteq> MAGIC then Inl InvalidMagic
      else and_then (index cmp 3) (\<lambda>version.
        if version \<noteq> 1 then Inl WrongVersion
        else
          let N = from_bytes (slice cmp 4 12);
              freq = read_freq 256 cmp 12
          in and_then (index cmp 1036) (\<lambda>lastbits.
               huffman_decompress_core freq (drop 1037 cmp) N (unat lastbits))))"

section \<open>Step 2: mask, vowels, consonants and the rest\<close>

text \<open>\<open>VOWELS = set("aeiouAEIOU")\<close>, tested on \<open>chr(b)\<close>.\<close>

definition in_VOWELS :: "byte \<Rightarrow> bool" where
  "in_VOWELS b \<longleftrightarrow> b \<in> set (bytes_of ''aeiouAEIOU'')"

text \<open>
  \<open>chr(b).isalpha()\<close> for a code point below 256: the letters of Latin-1
  (Unicode categories Lu, Ll, Lo), a built-in of Python.
\<close>

definition isalpha :: "byte \<Rightarrow> bool" where
  "isalpha b \<longleftrightarrow>
     (65 \<le> b \<and> b \<le> 90) \<or> (97 \<le> b \<and> b \<le> 122) \<or> b = 170 \<or> b = 181 \<or> b = 186 \<or>
     (192 \<le> b \<and> b \<le> 214) \<or> (216 \<le> b \<and> b \<le> 246) \<or> 248 \<le> b"

text \<open>The loop of \<open>split_streams_v2\<close>, on the three growing bytearrays.\<close>

fun split_loop_v2 :: "bytes \<Rightarrow> bytes \<times> bytes \<times> bytes \<Rightarrow> bytes \<times> bytes \<times> bytes" where
  "split_loop_v2 [] acc = acc"
| "split_loop_v2 (b # data) (msk, vowels, cons) =
     (if in_VOWELS b then split_loop_v2 data (msk @ [of_char CHR ''V''], vowels @ [b], cons)
      else if isalpha b then split_loop_v2 data (msk @ [of_char CHR ''C''], vowels, cons @ [b])
      else split_loop_v2 data (msk @ [of_char CHR ''O''], vowels, cons @ [b]))"

definition split_streams_v2 :: "bytes \<Rightarrow> bytes \<times> bytes \<times> bytes" where
  "split_streams_v2 data = split_loop_v2 data ([], [], [])"

text \<open>\<open>merge_streams_v2\<close>: \<open>iv\<close> and \<open>ic\<close> are the read positions in the two streams.\<close>

fun merge_loop_v2 :: "bytes \<Rightarrow> bytes \<Rightarrow> bytes \<Rightarrow> nat \<Rightarrow> nat \<Rightarrow> bytes \<Rightarrow> error + bytes" where
  "merge_loop_v2 [] vowels cons iv ic out = Inr out"
| "merge_loop_v2 (m # msk) vowels cons iv ic out =
     (if m = of_char CHR ''V''
      then and_then (index vowels iv) (\<lambda>b. merge_loop_v2 msk vowels cons (iv + 1) ic (out @ [b]))
      else and_then (index cons ic) (\<lambda>b. merge_loop_v2 msk vowels cons iv (ic + 1) (out @ [b])))"

definition merge_streams_v2 :: "bytes \<Rightarrow> bytes \<Rightarrow> bytes \<Rightarrow> error + bytes" where
  "merge_streams_v2 msk vowels cons = merge_loop_v2 msk vowels cons 0 0 []"

text \<open>
  One stream's part of the header, written three times in \<open>compress_bytes_v2\<close>:
  the frequencies, \<open>lastbits\<close> and the size of the bitstream.
\<close>

definition stream_header :: "nat list \<times> nat \<times> bytes \<Rightarrow> error + bytes" where
  "stream_header s =
     (case s of (freq, lastbits, bitstream) \<Rightarrow>
        and_then (freq_to_bytes freq) (\<lambda>freq_bytes.
        and_then (to_bytes 8 (length bitstream)) (\<lambda>size_bytes.
          Inr (freq_bytes @ [of_nat lastbits] @ size_bytes))))"

definition compress_bytes_v2 :: "bytes \<Rightarrow> error + bytes" where
  "compress_bytes_v2 data =
     (case split_streams_v2 data of (msk, vowels, cons) \<Rightarrow>
        and_then (huffman_compress_core msk) (\<lambda>(freq_m, last_m, bs_m).
        and_then (huffman_compress_core vowels) (\<lambda>(freq_v, last_v, bs_v).
        and_then (huffman_compress_core cons) (\<lambda>(freq_c, last_c, bs_c).
        and_then (to_bytes 8 (length data)) (\<lambda>n_bytes.
        and_then (to_bytes 8 (length vowels)) (\<lambda>len_v.
        and_then (to_bytes 8 (length cons)) (\<lambda>len_c.
        and_then (stream_header (freq_m, last_m, bs_m)) (\<lambda>head_m.
        and_then (stream_header (freq_v, last_v, bs_v)) (\<lambda>head_v.
        and_then (stream_header (freq_c, last_c, bs_c)) (\<lambda>head_c.
          Inr (MAGIC @ [2] @ n_bytes @ len_v @ len_c @ head_m @ head_v @ head_c
                 @ bs_m @ bs_v @ bs_c)))))))))))"

text \<open>
  Reading one stream's part of the header at \<open>idx\<close>, written three times in
  \<open>decompress_bytes_v2\<close>: the result is \<open>(freq, lastbits, bsize)\<close>, and \<open>idx\<close> moves on
  by \<open>256 * 4 + 1 + 8\<close>.
\<close>

definition read_stream_header :: "bytes \<Rightarrow> nat \<Rightarrow> error + (nat list \<times> nat \<times> nat)" where
  "read_stream_header cmp idx =
     (let freq = read_freq 256 cmp idx
      in and_then (index cmp (idx + 1024)) (\<lambda>lastbits.
           Inr (freq, unat lastbits, from_bytes (slice cmp (idx + 1025) (idx + 1033)))))"

definition decompress_bytes_v2 :: "bytes \<Rightarrow> error + bytes" where
  "decompress_bytes_v2 cmp =
     (if length cmp < 3 + 1 + 8 + 8 + 8 then Inl DataTooShort
      else if slice cmp 0 3 \<noteq> MAGIC then Inl InvalidMagic
      else and_then (index cmp 3) (\<lambda>version.
        if version \<noteq> 2 then Inl WrongVersion
        else
          let N = from_bytes (slice cmp 4 12);
              len_v = from_bytes (slice cmp 12 20);
              len_c = from_bytes (slice cmp 20 28)
          in and_then (read_stream_header cmp 28) (\<lambda>(freq_m, last_m, bsize_m).
             and_then (read_stream_header cmp 1061) (\<lambda>(freq_v, last_v, bsize_v).
             and_then (read_stream_header cmp 2094) (\<lambda>(freq_c, last_c, bsize_c).
               let idx = 3127;
                   end_m = idx + bsize_m;
                   bs_m = slice cmp idx end_m;
                   end_v = end_m + bsize_v;
                   bs_v = slice cmp end_m end_v;
                   end_c = end_v + bsize_c;
                   bs_c = slice cmp end_v end_c
               in and_then (huffman_decompress_core freq_m bs_m N last_m) (\<lambda>msk.
                  and_then (huffman_decompress_core freq_v bs_v len_v last_v) (\<lambda>vowels.
                  and_then (huffman_decompress_core freq_c bs_c len_c last_c) (\<lambda>cons.
                    merge_streams_v2 msk vowels cons))))))))"

section \<open>Steps 3 and 4: tokens\<close>

definition is_ascii_letter :: "byte \<Rightarrow> bool" where
  "is_ascii_letter b \<longleftrightarrow> (65 \<le> b \<and> b \<le> 90) \<or> (97 \<le> b \<and> b \<le> 122)"

definition is_vowel_byte :: "byte \<Rightarrow> bool" where
  "is_vowel_byte b \<longleftrightarrow> b \<in> set (bytes_of ''aeiouAEIOU'')"

text \<open>
  The loop of \<open>split_word_into_syllables\<close>: \<open>current\<close> is the accumulator; the closed
  syllables are returned in the order they are appended.
\<close>

fun syllables_loop :: "bytes \<Rightarrow> bytes \<Rightarrow> bytes list" where
  "syllables_loop current [] = (if current \<noteq> [] then [current] else [])"
| "syllables_loop current (b # word) =
     (if is_vowel_byte b then (current @ [b]) # syllables_loop [] word
      else syllables_loop (current @ [b]) word)"

definition split_word_into_syllables :: "bytes \<Rightarrow> bytes list" where
  "split_word_into_syllables word = syllables_loop [] word"

text \<open>
  The tokenizers scan with an index \<open>i\<close>. At a byte \<open>b = data[i]\<close> the inner loop
  advances \<open>i\<close> over the following bytes of the same class, so \<open>data[start:i]\<close> is \<open>b\<close>
  followed by the longest such prefix of the rest, and the scan goes on after it.
\<close>

function tokenize_words_and_other :: "bytes \<Rightarrow> bytes list" where
  "tokenize_words_and_other [] = []"
| "tokenize_words_and_other (b # rest) =
     (if is_ascii_letter b
      then (b # takeWhile is_ascii_letter rest)
             # tokenize_words_and_other (dropWhile is_ascii_letter rest)
      else (b # takeWhile (\<lambda>c. \<not> is_ascii_letter c) rest)
             # tokenize_words_and_other (dropWhile (\<lambda>c. \<not> is_ascii_letter c) rest))"
  by pat_completeness auto
termination
  by (relation "measure length") (auto simp: length_dropWhile_le less_Suc_eq_le)

function tokenize_syllables_and_other :: "bytes \<Rightarrow> bytes list" where
  "tokenize_syllables_and_other [] = []"
| "tokenize_syllables_and_other (b # rest) =
     (if is_ascii_letter b
      then split_word_into_syllables (b # takeWhile is_ascii_letter rest)
             @ tokenize_syllables_and_other (dropWhile is_ascii_letter rest)
      else (b # takeWhile (\<lambda>c. \<not> is_ascii_letter c) rest)
             # tokenize_syllables_and_other (dropWhile (\<lambda>c. \<not> is_ascii_letter c) rest))"
  by pat_completeness auto
termination
  by (relation "measure length") (auto simp: length_dropWhile_le less_Suc_eq_le)

section \<open>Steps 3 and 4: the container of a token sequence\<close>

text \<open>
  \<open>compress_bytes_v3\<close> and \<open>compress_bytes_v4\<close> are the same text after the call of
  the tokenizer, but for the version byte; so are the two decoders. The common part is
  written once, with the version as a parameter.

  The vocabulary: \<open>vocab\<close> is the dictionary from token to id, \<open>vocab_list\<close> the tokens
  in the order of their first occurrence.
\<close>

fun build_vocab ::
  "bytes list \<Rightarrow> (bytes \<rightharpoonup> nat) \<times> bytes list \<Rightarrow> (bytes \<rightharpoonup> nat) \<times> bytes list" where
  "build_vocab [] (vocab, vocab_list) = (vocab, vocab_list)"
| "build_vocab (tok # tokens) (vocab, vocab_list) =
     (if vocab tok = None
      then build_vocab tokens (vocab(tok \<mapsto> length vocab_list), vocab_list @ [tok])
      else build_vocab tokens (vocab, vocab_list))"

text \<open>
  \<open>for tok in tokens: id_stream.append(vocab[tok])\<close>; \<open>append\<close> raises for a value
  that is no byte.
\<close>

fun id_stream_of :: "bytes list \<Rightarrow> (bytes \<rightharpoonup> nat) \<Rightarrow> error + bytes" where
  "id_stream_of [] vocab = Inr []"
| "id_stream_of (tok # tokens) vocab =
     (case vocab tok of
        None \<Rightarrow> Inl KeyError
      | Some i \<Rightarrow>
          if i \<ge> 256 then Inl ByteRangeError
          else and_then (id_stream_of tokens vocab) (\<lambda>ids. Inr (of_nat i # ids)))"

text \<open>The vocabulary in the header: \<open>LEN(2) | TOKEN_BYTES\<close> for each token.\<close>

fun vocab_to_bytes :: "bytes list \<Rightarrow> error + bytes" where
  "vocab_to_bytes [] = Inr []"
| "vocab_to_bytes (tok_bytes # vocab_list) =
     (if length tok_bytes > 65535 then Inl TokenTooLong
      else and_then (to_bytes 2 (length tok_bytes)) (\<lambda>len_bytes.
           and_then (vocab_to_bytes vocab_list) (\<lambda>rest. Inr (len_bytes @ tok_bytes @ rest))))"

definition compress_tokens :: "byte \<Rightarrow> bytes list \<Rightarrow> error + bytes" where
  "compress_tokens version tokens =
     (case build_vocab tokens (Map.empty, []) of (vocab, vocab_list) \<Rightarrow>
        if length vocab_list > 256 then Inl VocabTooLarge
        else
          and_then (id_stream_of tokens vocab) (\<lambda>id_stream.
          and_then (huffman_compress_core id_stream) (\<lambda>(freq, lastbits, bitstream).
          and_then (to_bytes 8 (length tokens)) (\<lambda>n_bytes.
          and_then (to_bytes 2 (length vocab_list)) (\<lambda>size_bytes.
          and_then (vocab_to_bytes vocab_list) (\<lambda>vocab_bytes.
          and_then (freq_to_bytes freq) (\<lambda>freq_bytes.
            Inr (MAGIC @ [version] @ n_bytes @ size_bytes @ vocab_bytes @ freq_bytes
                   @ [of_nat lastbits] @ bitstream))))))))"

definition compress_bytes_v3 :: "bytes \<Rightarrow> error + bytes" where
  "compress_bytes_v3 data = compress_tokens 3 (tokenize_syllables_and_other data)"

definition compress_bytes_v4 :: "bytes \<Rightarrow> error + bytes" where
  "compress_bytes_v4 data = compress_tokens 4 (tokenize_words_and_other data)"

text \<open>Reading the vocabulary: \<open>for _ in range(vocab_size)\<close>, with the two checks.\<close>

fun read_vocab :: "nat \<Rightarrow> bytes \<Rightarrow> nat \<Rightarrow> bytes list \<Rightarrow> error + (bytes list \<times> nat)" where
  "read_vocab 0 cmp idx vocab_list = Inr (vocab_list, idx)"
| "read_vocab (Suc k) cmp idx vocab_list =
     (if idx + 2 > length cmp then Inl TruncatedFile
      else
        let L = from_bytes (slice cmp idx (idx + 2));
            idx' = idx + 2
        in if idx' + L > length cmp then Inl TruncatedFile
           else read_vocab k cmp (idx' + L) (vocab_list @ [slice cmp idx' (idx' + L)]))"

text \<open>\<open>for b in id_bytes: tok = vocab_list[b]; out += tok\<close>\<close>

fun lookup_tokens :: "bytes \<Rightarrow> bytes list \<Rightarrow> bytes \<Rightarrow> error + bytes" where
  "lookup_tokens [] vocab_list out = Inr out"
| "lookup_tokens (b # id_bytes) vocab_list out =
     (if unat b < length vocab_list
      then lookup_tokens id_bytes vocab_list (out @ vocab_list ! unat b)
      else Inl IndexError)"

text \<open>
  The decoder up to the decoded id stream: the stored vocabulary and \<open>id_bytes\<close>.
\<close>

definition decode_ids :: "byte \<Rightarrow> bytes \<Rightarrow> error + (bytes list \<times> bytes)" where
  "decode_ids version cmp =
     (if length cmp < 3 + 1 + 8 + 2 then Inl DataTooShort
      else if slice cmp 0 3 \<noteq> MAGIC then Inl InvalidMagic
      else and_then (index cmp 3) (\<lambda>v.
        if v \<noteq> version then Inl WrongVersion
        else
          let N_tokens = from_bytes (slice cmp 4 12);
              vocab_size = from_bytes (slice cmp 12 14)
          in and_then (read_vocab vocab_size cmp 14 []) (\<lambda>(vocab_list, idx).
               if idx + 256 * 4 + 1 > length cmp then Inl TruncatedFile
               else
                 let freq = read_freq 256 cmp idx
                 in and_then (index cmp (idx + 1024)) (\<lambda>lastbits.
                    and_then (huffman_decompress_core freq (drop (idx + 1025) cmp) N_tokens
                                (unat lastbits)) (\<lambda>id_bytes.
                      Inr (vocab_list, id_bytes))))))"

definition decompress_tokens :: "byte \<Rightarrow> bytes \<Rightarrow> error + bytes" where
  "decompress_tokens version cmp =
     and_then (decode_ids version cmp) (\<lambda>(vocab_list, id_bytes).
       lookup_tokens id_bytes vocab_list [])"

definition decompress_bytes_v3 :: "bytes \<Rightarrow> error + bytes" where
  "decompress_bytes_v3 cmp = decompress_tokens 3 cmp"

definition decompress_bytes_v4 :: "bytes \<Rightarrow> error + bytes" where
  "decompress_bytes_v4 cmp = decompress_tokens 4 cmp"

section \<open>Notions used in the statements\<close>

text \<open>The symbols at the leaves of a tree, from left to right.\<close>

fun leaves :: "HuffmanNode \<Rightarrow> nat list" where
  "leaves (Leaf f s) = [s]"
| "leaves (Inner f l r) = leaves l @ leaves r"

text \<open>The leaf symbols of all the trees in the heap, with their multiplicity.\<close>

fun heap_symbols :: "heap_entry list \<Rightarrow> nat multiset" where
  "heap_symbols [] = {#}"
| "heap_symbols ((f, c, n) # heap) = mset (leaves n) + heap_symbols heap"

text \<open>
  The symbols with a non-zero count in \<open>freq\<close>, in increasing order, when the first
  entry of \<open>freq\<close> is the count of symbol \<open>s\<close>.
\<close>

fun used_symbols :: "nat list \<Rightarrow> nat \<Rightarrow> nat list" where
  "used_symbols [] s = []"
| "used_symbols (f # freq) s =
     (if f > 0 then s # used_symbols freq (Suc s) else used_symbols freq (Suc s))"

text \<open>
  \<open>reaches t p s\<close>: going down from \<open>t\<close>, left on 0 and right on 1, the path \<open>p\<close>
  ends exactly at a leaf, whose symbol is \<open>s\<close>.
\<close>

fun reaches :: "HuffmanNode \<Rightarrow> bits \<Rightarrow> nat \<Rightarrow> bool" where
  "reaches (Leaf f s') p s \<longleftrightarrow> p = [] \<and> s = s'"
| "reaches (Inner f l r) [] s \<longleftrightarrow> False"
| "reaches (Inner f l r) (b # p) s \<longleftrightarrow> reaches (if b then r else l) p s"

text \<open>No code of the table is a prefix of the code of another symbol.\<close>

definition prefix_free :: "(nat \<rightharpoonup> bits) \<Rightarrow> bool" where
  "prefix_free codes \<longleftrightarrow>
     (\<forall>s1 s2 c1 c2. codes s1 = Some c1 \<and> codes s2 = Some c2 \<and> s1 \<noteq> s2 \<longrightarrow> \<not> prefix c1 c2)"

text \<open>Every node in the heap is a leaf, as after the first loop.\<close>

definition all_leaves :: "heap_entry list \<Rightarrow> bool" where
  "all_leaves heap \<longleftrightarrow> (\<forall>e \<in> set heap. \<exists>w s. snd (snd e) = Leaf w s)"

text \<open>The symbols of the tree built from \<open>freq\<close>: the used ones, and the dummy.\<close>

definition coded_symbols :: "nat list \<Rightarrow> nat list" where
  "coded_symbols freq =
     (let us = used_symbols freq 0
      in if length us = 1 then us @ [(hd us + 1) mod 256] else us)"

section \<open>Properties of the stream split and of the tokenizers\<close>

lemma split_loop_v2_lengths:
  "split_loop_v2 data (m, v, c) = (m', v', c') \<Longrightarrow>
     length m' = length m + length data \<and>
     length v' + length c' = length v + length c + length data"
  by (induction data arbitrary: m v c) (auto split: if_splits)

text \<open>
  C6: the mask stream of \<open>split_streams_v2\<close> is as long as the input, and the vowel
  stream and the consonant/other stream together are as long as the input.
\<close>

theorem split_streams_v2_lengths:
  "(case split_streams_v2 data of (msk, vowels, cons) \<Rightarrow>
      length msk = length data \<and> length vowels + length cons = length data)"
proof -
  obtain m v c where r: "split_streams_v2 data = (m, v, c)"
    by (cases "split_streams_v2 data") auto
  from r have "split_loop_v2 data ([], [], []) = (m, v, c)"
    by (simp add: split_streams_v2_def)
  from split_loop_v2_lengths [OF this] show ?thesis
    by (simp add: r)
qed

text \<open>
  C8: on \<open>ciao, mondo!\<close> the word tokenizer yields \<open>ciao\<close>, \<open>, \<close>, \<open>mondo\<close>, \<open>!\<close>;
  the syllable splitter cuts \<open>ciao\<close> into \<open>ci\<close>, \<open>a\<close>, \<open>o\<close>, and the syllable
  tokenizer cuts the letter runs only, the tokens \<open>, \<close> and \<open>!\<close> staying whole.
\<close>

theorem tokenizers_ciao_mondo:
  "tokenize_words_and_other (bytes_of ''ciao, mondo!'')
     = map bytes_of [''ciao'', '', '', ''mondo'', ''!'']
   \<and> split_word_into_syllables (bytes_of ''ciao'') = map bytes_of [''ci'', ''a'', ''o'']
   \<and> tokenize_syllables_and_other (bytes_of ''ciao, mondo!'')
     = map bytes_of [''ci'', ''a'', ''o'', '', '', ''mo'', ''ndo'', ''!'']"
  by (simp add: bytes_of_def is_ascii_letter_def is_vowel_byte_def
      split_word_into_syllables_def)

lemma concat_syllables_loop: "concat (syllables_loop current word) = current @ word"
  by (induction word arbitrary: current) auto

lemma concat_tokenize_words_and_other: "concat (tokenize_words_and_other data) = data"
  by (induction data rule: tokenize_words_and_other.induct) auto

lemma concat_tokenize_syllables_and_other:
  "concat (tokenize_syllables_and_other data) = data"
  by (induction data rule: tokenize_syllables_and_other.induct)
    (auto simp: split_word_into_syllables_def concat_syllables_loop)

text \<open>
  C9: the tokens of either tokenizer, concatenated in order, are the input: no byte is
  dropped, duplicated or moved.
\<close>

theorem tokenize_concat:
  "concat (tokenize_words_and_other data) = data \<and>
   concat (tokenize_syllables_and_other data) = data"
  by (simp add: concat_tokenize_words_and_other concat_tokenize_syllables_and_other)

section \<open>Huffman trees and code tables\<close>

lemma and_then_simps [simp]:
  "and_then (Inl e) f = Inl e" "and_then (Inr x) f = f x"
  by (simp_all add: and_then_def)

lemma and_then_Inr_iff:
  "and_then r f = Inr y \<longleftrightarrow> (\<exists>x. r = Inr x \<and> f x = Inr y)"
  by (cases r) auto

lemma heap_symbols_heappush:
  "heap_symbols (heappush heap (f, c, n)) = mset (leaves n) + heap_symbols heap"
  by (induction heap) (auto simp: heappush_def)

lemma length_heappush [simp]: "length (heappush heap e) = Suc (length heap)"
  by (simp add: heappush_def)

lemma heap_symbols_merge_loop: "heap_symbols (merge_loop heap counter) = heap_symbols heap"
  by (induction heap counter rule: merge_loop.induct) (auto simp: heap_symbols_heappush)

lemma length_merge_loop: "heap \<noteq> [] \<Longrightarrow> length (merge_loop heap counter) = 1"
proof (induction heap counter rule: merge_loop.induct)
  case (3 f1 c1 n1 f2 c2 n2 heap counter)
  have "heappush heap (f1 + f2, counter, Inner (f1 + f2) n1 n2) \<noteq> []"
    using length_heappush [of heap] by (metis length_0_conv nat.distinct(1))
  with 3 show ?case by simp
qed auto

lemma used_symbols_ge: "x \<in> set (used_symbols freq s) \<Longrightarrow> s \<le> x"
  by (induction freq arbitrary: s) (auto split: if_splits dest: Suc_leD)

lemma distinct_used_symbols: "distinct (used_symbols freq s)"
  by (induction freq arbitrary: s) (auto dest: used_symbols_ge)

lemma set_used_symbols:
  "set (used_symbols freq s) = {s + i |i. i < length freq \<and> freq ! i > 0}"
proof (induction freq arbitrary: s)
  case Nil
  then show ?case by simp
next
  case (Cons f freq)
  have *: "{s + i |i. i < length (f # freq) \<and> (f # freq) ! i > 0}
         = (if f > 0 then {s} else {}) \<union> {Suc s + i |i. i < length freq \<and> freq ! i > 0}"
    (is "?L = ?R")
  proof (intro set_eqI iffI)
    fix x assume "x \<in> ?L"
    then obtain i where i: "x = s + i" "i < length (f # freq)" "(f # freq) ! i > 0" by auto
    show "x \<in> ?R"
    proof (cases i)
      case 0
      with i show ?thesis by auto
    next
      case (Suc j)
      with i show ?thesis by auto
    qed
  next
    fix x assume "x \<in> ?R"
    then consider "f > 0" "x = s" | j where "x = Suc s + j" "j < length freq" "freq ! j > 0"
      by (auto split: if_splits)
    then show "x \<in> ?L"
    proof cases
      case 1
      then have "x = s + 0 \<and> 0 < length (f # freq) \<and> (f # freq) ! 0 > 0" by simp
      then show ?thesis by blast
    next
      case 2
      then have "x = s + Suc j \<and> Suc j < length (f # freq) \<and> (f # freq) ! Suc j > 0" by simp
      then show ?thesis by blast
    qed
  qed
  show ?case unfolding * by (simp add: Cons.IH)
qed

lemma all_leaves_heappush:
  "all_leaves heap \<Longrightarrow> all_leaves (heappush heap (f, c, Leaf w s))"
  by (auto simp: all_leaves_def heappush_def set_insort_key)

lemma push_leaves_props:
  "push_leaves freq s (heap, counter) = (heap', counter') \<Longrightarrow>
     heap_symbols heap' = heap_symbols heap + mset (used_symbols freq s) \<and>
     length heap' = length heap + length (used_symbols freq s) \<and>
     (all_leaves heap \<longrightarrow> all_leaves heap')"
proof (induction freq arbitrary: s heap counter)
  case Nil
  then show ?case by simp
next
  case (Cons f freq)
  show ?case
  proof (cases "f > 0")
    case True
    with Cons.prems have
      "push_leaves freq (Suc s) (heappush heap (f, counter, Leaf f s), Suc counter) = (heap', counter')"
      by simp
    from Cons.IH [OF this] True show ?thesis
      by (auto simp: heap_symbols_heappush all_leaves_heappush)
  next
    case False
    with Cons.prems have "push_leaves freq (Suc s) (heap, counter) = (heap', counter')"
      by simp
    from Cons.IH [OF this] False show ?thesis by simp
  qed
qed

lemma dummy_symbol_neq: "(s + 1) mod 256 \<noteq> (s::nat)"
proof (cases "s < 255")
  case True
  then have "(s + 1) mod 256 = s + 1" by simp
  then show ?thesis by simp
next
  case False
  show ?thesis
  proof (cases "s = 255")
    case True
    then show ?thesis by simp
  next
    case False
    with \<open>\<not> s < 255\<close> have "256 \<le> s" by simp
    moreover have "(s + 1) mod 256 < 256" by simp
    ultimately show ?thesis by linarith
  qed
qed

lemma distinct_coded_symbols: "distinct (coded_symbols freq)"
proof (cases "length (used_symbols freq 0) = 1")
  case True
  then obtain s where s: "used_symbols freq 0 = [s]"
    by (cases "used_symbols freq 0") auto
  have "coded_symbols freq = [s, (s + 1) mod 256]"
    by (simp add: coded_symbols_def s)
  moreover have "s \<noteq> (s + 1) mod 256"
    using dummy_symbol_neq [of s] by simp
  ultimately show ?thesis by simp
next
  case False
  then show ?thesis
    by (simp add: coded_symbols_def distinct_used_symbols)
qed

lemma set_coded_symbols: "set (used_symbols freq 0) \<subseteq> set (coded_symbols freq)"
  by (auto simp: coded_symbols_def Let_def)

lemma length_coded_symbols: "used_symbols freq 0 \<noteq> [] \<Longrightarrow> 2 \<le> length (coded_symbols freq)"
  by (cases "used_symbols freq 0"; cases "tl (used_symbols freq 0)")
     (auto simp: coded_symbols_def Let_def)

lemma add_dummy_props:
  assumes "add_dummy (heap, counter) = (heap', counter')"
    and "all_leaves heap" and "heap_symbols heap = mset us" and "length heap = length us"
    and "us \<noteq> []"
  shows "heap_symbols heap' = mset (if length us = 1 then us @ [(hd us + 1) mod 256] else us)
         \<and> 2 \<le> length heap'"
proof (cases us)
  case Nil
  with assms show ?thesis by simp
next
  case (Cons s us')
  show ?thesis
  proof (cases us')
    case Nil
    with Cons assms(4) obtain e where heap: "heap = [e]"
      by (cases heap) auto
    obtain f c n where e: "e = (f, c, n)" by (cases e) auto
    from assms(2) heap e obtain w s' where n: "n = Leaf w s'"
      by (auto simp: all_leaves_def)
    from assms(3) heap e n Cons Nil have "s' = s" by simp
    with assms(1) heap e n have "heap' = heappush [(f, c, Leaf w s)] (0, counter, Leaf 0 ((s + 1) mod 256))"
      by (auto simp: add_dummy_def)
    then show ?thesis
      using Cons Nil by (simp add: heap_symbols_heappush)
  next
    case (Cons s2 us2)
    with \<open>us = s # us'\<close> assms(4) have "length heap = Suc (Suc (length us2))" by simp
    then obtain e1 e2 rest where heap: "heap = e1 # e2 # rest"
      by (metis length_Suc_conv)
    have "add_dummy (e1 # e2 # rest, counter) = (e1 # e2 # rest, counter)"
      by (simp add: add_dummy_def split: prod.splits HuffmanNode.splits)
    with assms(1) heap have "heap' = heap" by simp
    with assms(3) heap Cons \<open>us = s # us'\<close> show ?thesis by simp
  qed
qed

lemma build_huffman_tree_None:
  "used_symbols freq 0 = [] \<Longrightarrow> build_huffman_tree freq = None"
proof -
  assume u: "used_symbols freq 0 = []"
  obtain heap counter where p: "push_leaves freq 0 ([], 0) = (heap, counter)"
    by (cases "push_leaves freq 0 ([], 0)") auto
  from push_leaves_props [OF p] u have "heap = []" by simp
  with p show ?thesis by (simp add: build_huffman_tree_def)
qed

lemma build_huffman_tree_Some:
  assumes u: "used_symbols freq 0 \<noteq> []"
  shows "\<exists>root. build_huffman_tree freq = Some root \<and>
           mset (leaves root) = mset (coded_symbols freq)"
proof -
  obtain heap counter where p: "push_leaves freq 0 ([], 0) = (heap, counter)"
    by (cases "push_leaves freq 0 ([], 0)") auto
  from push_leaves_props [OF p]
  have hs: "heap_symbols heap = mset (used_symbols freq 0)"
    and len: "length heap = length (used_symbols freq 0)" and al: "all_leaves heap"
    by (simp_all add: all_leaves_def)
  from len u obtain e rest where heap: "heap = e # rest" by (cases heap) auto
  obtain heap' counter' where d: "add_dummy (heap, counter) = (heap', counter')"
    by (cases "add_dummy (heap, counter)") auto
  from add_dummy_props [OF d al hs len u]
  have hs': "heap_symbols heap' = mset (coded_symbols freq)" and len': "2 \<le> length heap'"
    by (simp_all add: coded_symbols_def Let_def)
  from len' have ne: "heap' \<noteq> []" by auto
  from length_merge_loop [OF ne, of counter'] obtain f c root
    where m: "merge_loop heap' counter' = [(f, c, root)]"
    by (cases "merge_loop heap' counter'") auto
  have "heap_symbols (merge_loop heap' counter') = heap_symbols heap'"
    by (rule heap_symbols_merge_loop)
  with m hs' have "mset (leaves root) = mset (coded_symbols freq)" by simp
  moreover have "build_huffman_tree freq = Some root"
    using p heap d m by (simp add: build_huffman_tree_def)
  ultimately show ?thesis by blast
qed

lemma leaves_nonempty: "leaves t \<noteq> []"
  by (induction t) auto

lemma build_huffman_tree_shape:
  assumes "build_huffman_tree freq = Some root"
  shows "distinct (leaves root) \<and> set (used_symbols freq 0) \<subseteq> set (leaves root)
         \<and> (\<exists>f l r. root = Inner f l r)"
proof -
  have u: "used_symbols freq 0 \<noteq> []"
    using assms build_huffman_tree_None by fastforce
  from build_huffman_tree_Some [OF u] assms
  have m: "mset (leaves root) = mset (coded_symbols freq)" by auto
  have d: "distinct (leaves root)"
    using mset_eq_imp_distinct_iff [OF m] distinct_coded_symbols by simp
  have s: "set (leaves root) = set (coded_symbols freq)"
    using mset_eq_setD [OF m] .
  have "length (leaves root) = length (coded_symbols freq)"
    using mset_eq_length [OF m] .
  with length_coded_symbols [OF u] have "2 \<le> length (leaves root)" by simp
  then have "\<exists>f l r. root = Inner f l r" by (cases root) auto
  with d s set_coded_symbols show ?thesis by auto
qed

lemma dfs_other: "s \<notin> set (leaves t) \<Longrightarrow> dfs t path codes s = codes s"
  by (induction t arbitrary: path codes) auto

lemma dfs_reaches:
  "distinct (leaves t) \<Longrightarrow> s \<in> set (leaves t) \<Longrightarrow>
     \<exists>p. reaches t p s \<and>
         dfs t path codes s = Some (if path = [] \<and> p = [] then [False] else path @ p)"
proof (induction t arbitrary: path codes)
  case (Leaf f s')
  then have "reaches (Leaf f s') [] s \<and>
    dfs (Leaf f s') path codes s = Some (if path = [] \<and> [] = ([]::bits) then [False] else path @ [])"
    by simp
  then show ?case by blast
next
  case (Inner f l r)
  show ?case
  proof (cases "s \<in> set (leaves l)")
    case True
    with Inner.prems have nr: "s \<notin> set (leaves r)" by auto
    from Inner.prems have "distinct (leaves l)" by simp
    from Inner.IH(1) [OF this True, of "path @ [False]" codes]
    have "\<exists>p. reaches l p s \<and> dfs l (path @ [False]) codes s = Some (path @ False # p)"
      by simp
    then obtain p where p: "reaches l p s"
      "dfs l (path @ [False]) codes s = Some (path @ False # p)"
      by blast
    have "reaches (Inner f l r) (False # p) s" using p(1) by simp
    moreover have "dfs (Inner f l r) path codes s
        = Some (if path = [] \<and> False # p = [] then [False] else path @ False # p)"
      using p(2) dfs_other [OF nr] by simp
    ultimately show ?thesis by blast
  next
    case False
    with Inner.prems have sr: "s \<in> set (leaves r)" by auto
    from Inner.prems have "distinct (leaves r)" by simp
    from Inner.IH(2) [OF this sr, of "path @ [True]" "dfs l (path @ [False]) codes"]
    have "\<exists>p. reaches r p s \<and>
        dfs r (path @ [True]) (dfs l (path @ [False]) codes) s = Some (path @ True # p)"
      by simp
    then obtain p where p: "reaches r p s"
      "dfs r (path @ [True]) (dfs l (path @ [False]) codes) s = Some (path @ True # p)"
      by blast
    have "reaches (Inner f l r) (True # p) s" using p(1) by simp
    moreover have "dfs (Inner f l r) path codes s
        = Some (if path = [] \<and> True # p = [] then [False] else path @ True # p)"
      using p(2) by simp
    ultimately show ?thesis by blast
  qed
qed

lemma dom_dfs: "dom (dfs t path codes) = dom codes \<union> set (leaves t)"
  by (induction t arbitrary: path codes) auto

lemma reaches_leaf: "reaches t p s \<Longrightarrow> s \<in> set (leaves t)"
proof (induction t arbitrary: p)
  case (Leaf f s')
  then show ?case by simp
next
  case (Inner f l r)
  then show ?case by (cases p) (auto split: if_splits)
qed

lemma reaches_prefix:
  "reaches t p1 s1 \<Longrightarrow> reaches t p2 s2 \<Longrightarrow> prefix p1 p2 \<Longrightarrow> s1 = s2 \<and> p1 = p2"
proof (induction t arbitrary: p1 p2)
  case (Leaf f s')
  then show ?case by simp
next
  case (Inner f l r)
  from Inner.prems(1) obtain b q1 where p1: "p1 = b # q1" by (cases p1) auto
  with Inner.prems(3) obtain q2 where p2: "p2 = b # q2" "prefix q1 q2"
    by (cases p2) auto
  show ?case
  proof (cases b)
    case True
    with Inner.prems p1 p2 Inner.IH(2) [of q1 q2] show ?thesis by simp
  next
    case False
    with Inner.prems p1 p2 Inner.IH(1) [of q1 q2] show ?thesis by simp
  qed
qed

lemma build_code_table_reaches:
  assumes "distinct (leaves root)" and "build_code_table root s = Some c"
    and "root = Inner f l r"
  shows "reaches root c s"
proof -
  from assms(2) have "s \<in> dom (dfs root [] Map.empty)"
    by (auto simp: build_code_table_def)
  then have s: "s \<in> set (leaves root)" by (simp add: dom_dfs)
  from dfs_reaches [OF assms(1) s, of "[]" Map.empty]
  obtain p where p0: "reaches root p s"
    "dfs root [] Map.empty s = Some (if [] = ([]::bits) \<and> p = [] then [False] else [] @ p)"
    by blast
  then have p: "reaches root p s"
    "build_code_table root s = Some (if p = [] then [False] else p)"
    by (simp_all add: build_code_table_def)
  from p(1) assms(3) have "p \<noteq> []" by auto
  with p assms(2) show ?thesis by simp
qed

lemma build_code_table_covers:
  assumes "distinct (leaves root)" and "s \<in> set (leaves root)" and "root = Inner f l r"
  shows "\<exists>c. build_code_table root s = Some c \<and> reaches root c s \<and> c \<noteq> []"
proof -
  from dfs_reaches [OF assms(1,2), of "[]" Map.empty]
  obtain p where p0: "reaches root p s"
    "dfs root [] Map.empty s = Some (if [] = ([]::bits) \<and> p = [] then [False] else [] @ p)"
    by blast
  then have p: "reaches root p s"
    "build_code_table root s = Some (if p = [] then [False] else p)"
    by (simp_all add: build_code_table_def)
  from p(1) assms(3) have "p \<noteq> []" by auto
  with p show ?thesis by simp
qed

lemma prefix_free_build_code_table:
  assumes "distinct (leaves root)" and "root = Inner f l r"
  shows "prefix_free (build_code_table root)"
  unfolding prefix_free_def
proof (intro allI impI notI)
  fix s1 s2 c1 c2
  assume a: "build_code_table root s1 = Some c1 \<and> build_code_table root s2 = Some c2 \<and> s1 \<noteq> s2"
    and p: "prefix c1 c2"
  from a have "reaches root c1 s1" "reaches root c2 s2"
    using build_code_table_reaches [OF assms(1) _ assms(2)] by auto
  from reaches_prefix [OF this p] a show False by simp
qed

lemma used_symbols_nonempty:
  "used_symbols freq 0 \<noteq> [] \<longleftrightarrow> (\<exists>i<length freq. 0 < freq ! i)"
proof -
  have "used_symbols freq 0 \<noteq> [] \<longleftrightarrow> set (used_symbols freq 0) \<noteq> {}" by simp
  also have "\<dots> \<longleftrightarrow> (\<exists>i<length freq. 0 < freq ! i)"
    unfolding set_used_symbols by auto
  finally show ?thesis .
qed

text \<open>
  C4: for a frequency table with a non-zero entry, \<open>build_huffman_tree\<close> returns a
  tree, and in the code table that \<open>build_code_table\<close> derives from it no symbol's
  code is a prefix of the code of a different symbol.
\<close>

theorem code_table_prefix_free:
  assumes "\<exists>i<length freq. 0 < freq ! i"
  shows "\<exists>root. build_huffman_tree freq = Some root \<and> prefix_free (build_code_table root)"
proof -
  from assms have u: "used_symbols freq 0 \<noteq> []"
    by (simp add: used_symbols_nonempty)
  from build_huffman_tree_Some [OF u] obtain root
    where root: "build_huffman_tree freq = Some root" by blast
  from build_huffman_tree_shape [OF root] obtain f l r
    where "distinct (leaves root)" "root = Inner f l r" by blast
  then have "prefix_free (build_code_table root)"
    by (rule prefix_free_build_code_table)
  with root show ?thesis by blast
qed

lemma heappush_Nil: "heappush [] e = [e]"
  by (simp add: heappush_def)

theorem code_table_prefix_free_witness:
  "(\<exists>i<length [2, 1, 1::nat]. 0 < [2, 1, 1::nat] ! i) \<and>
   build_huffman_tree [2, 1, 1] = Some (Inner 4 (Leaf 2 0) (Inner 2 (Leaf 1 1) (Leaf 1 2))) \<and>
   prefix_free (build_code_table (Inner 4 (Leaf 2 0) (Inner 2 (Leaf 1 1) (Leaf 1 2)))) \<and>
   build_code_table (Inner 4 (Leaf 2 0) (Inner 2 (Leaf 1 1) (Leaf 1 2))) 1 = Some [True, False] \<and>
   build_code_table (Inner 4 (Leaf 2 0) (Inner 2 (Leaf 1 1) (Leaf 1 2))) 2 = Some [True, True] \<and>
   \<not> prefix [True, False] [True, True]"
proof -
  have h: "\<exists>i<length [2, 1, 1::nat]. 0 < [2, 1, 1::nat] ! i"
    by (rule exI [of _ 0]) simp
  have t: "build_huffman_tree [2, 1, 1] = Some (Inner 4 (Leaf 2 0) (Inner 2 (Leaf 1 1) (Leaf 1 2)))"
    by (simp add: build_huffman_tree_def heappush_def add_dummy_def entry_key_def)
  from code_table_prefix_free [OF h] t
  have "prefix_free (build_code_table (Inner 4 (Leaf 2 0) (Inner 2 (Leaf 1 1) (Leaf 1 2))))"
    by simp
  with h t show ?thesis
    by (simp add: build_code_table_def)
qed

lemma push_leaves_zeros:
  "\<forall>i<length freq. freq ! i = 0 \<Longrightarrow> push_leaves freq k hc = hc"
proof (induction freq arbitrary: k)
  case Nil
  then show ?case by (cases hc) simp
next
  case (Cons f freq)
  from Cons.prems have "f = 0" by auto
  moreover from Cons.prems have "\<forall>i<length freq. freq ! i = 0" by auto
  ultimately show ?case using Cons.IH by (cases hc) simp
qed

lemma push_leaves_single:
  "s < length freq \<Longrightarrow> 0 < freq ! s \<Longrightarrow> \<forall>i<length freq. i \<noteq> s \<longrightarrow> freq ! i = 0 \<Longrightarrow>
     push_leaves freq k (heap, counter)
       = (heappush heap (freq ! s, counter, Leaf (freq ! s) (k + s)), Suc counter)"
proof (induction freq arbitrary: k s)
  case Nil
  then show ?case by simp
next
  case (Cons f freq)
  show ?case
  proof (cases s)
    case 0
    with Cons.prems have f: "0 < f" by simp
    have "\<forall>i<length freq. freq ! i = 0"
    proof (intro allI impI)
      fix i assume "i < length freq"
      with Cons.prems(3) 0 have "(f # freq) ! Suc i = 0" by auto
      then show "freq ! i = 0" by simp
    qed
    from push_leaves_zeros [OF this] f 0 show ?thesis by simp
  next
    case (Suc j)
    with Cons.prems have j: "j < length freq" "0 < freq ! j" by simp_all
    from Cons.prems(3) Suc have f: "f = 0" by auto
    have "\<forall>i<length freq. i \<noteq> j \<longrightarrow> freq ! i = 0"
    proof (intro allI impI)
      fix i assume "i < length freq" "i \<noteq> j"
      with Cons.prems(3) Suc have "(f # freq) ! Suc i = 0" by auto
      then show "freq ! i = 0" by simp
    qed
    from Cons.IH [OF j this, of "Suc k"] f Suc show ?thesis by simp
  qed
qed

text \<open>
  C5: when exactly one symbol \<open>s\<close> has a non-zero count, the tree is an inner node over
  a dummy leaf of weight 0 with symbol \<open>(s + 1) mod 256\<close> and the leaf of \<open>s\<close>: it
  has two leaves, and every symbol with a non-zero count gets a non-empty code.
\<close>

theorem single_symbol_dummy_leaf:
  assumes "s < length freq" and "0 < freq ! s"
    and "\<forall>i<length freq. i \<noteq> s \<longrightarrow> freq ! i = 0"
  shows "\<exists>root. build_huffman_tree freq = Some root \<and>
           root = Inner (freq ! s) (Leaf 0 ((s + 1) mod 256)) (Leaf (freq ! s) s) \<and>
           2 \<le> length (leaves root) \<and>
           (\<forall>x<length freq. 0 < freq ! x \<longrightarrow>
              (\<exists>c. build_code_table root x = Some c \<and> c \<noteq> []))"
proof -
  let ?f = "freq ! s"
  let ?root = "Inner ?f (Leaf 0 ((s + 1) mod 256)) (Leaf ?f s)"
  have p: "push_leaves freq 0 ([], 0) = ([(?f, 0, Leaf ?f s)], 1)"
    using push_leaves_single [OF assms, of 0 "[]" 0] by (simp add: heappush_def)
  have d: "add_dummy ([(?f, 0, Leaf ?f s)], 1)
      = ([(0, 1, Leaf 0 ((s + 1) mod 256)), (?f, 0, Leaf ?f s)], 2)"
    using assms(2) by (simp add: add_dummy_def heappush_def entry_key_def)
  have m: "merge_loop [(0, 1, Leaf 0 ((s + 1) mod 256)), (?f, 0, Leaf ?f s)] 2 = [(?f, 2, ?root)]"
    by (simp add: heappush_def)
  have t: "build_huffman_tree freq = Some ?root"
    using p d m by (simp add: build_huffman_tree_def)
  have c: "build_code_table ?root s = Some [True]"
    by (simp add: build_code_table_def)
  have "\<exists>c. build_code_table ?root x = Some c \<and> c \<noteq> []"
    if "x < length freq" "0 < freq ! x" for x
  proof -
    from that assms(3) have "x = s" by auto
    with c show ?thesis by simp
  qed
  with t show ?thesis by simp
qed

theorem single_symbol_dummy_leaf_witness:
  "(2::nat) < length [0, 0, 7::nat] \<and> 0 < [0, 0, 7::nat] ! 2 \<and>
   build_huffman_tree [0, 0, 7] = Some (Inner 7 (Leaf 0 3) (Leaf 7 2)) \<and>
   leaves (Inner 7 (Leaf 0 3) (Leaf 7 2)) = [3, 2] \<and>
   build_code_table (Inner 7 (Leaf 0 3) (Leaf 7 2)) 2 = Some [True]"
proof -
  have h1: "(2::nat) < length [0, 0, 7::nat]" and h2: "0 < [0, 0, 7::nat] ! 2" by simp_all
  have h3: "\<forall>i<length [0, 0, 7::nat]. i \<noteq> 2 \<longrightarrow> [0, 0, 7::nat] ! i = 0"
    by (simp add: nth_Cons' less_Suc_eq numeral_3_eq_3)
  from single_symbol_dummy_leaf [OF h1 h2 h3]
  have "build_huffman_tree [0, 0, 7] = Some (Inner 7 (Leaf 0 3) (Leaf 7 2))" by simp
  with h1 h2 show ?thesis by (simp add: build_code_table_def)
qed

end
